theory Spec2Isabelle
  imports Main "HOL-Library.Multiset"
begin

section \<open>AlertViewer: the alert feed of src/AlertViewer.tsx\<close>

text \<open>
  The component keeps its state in React hooks. Every asynchronous handler is split at
  its single \<open>await\<close> on the network: a \<open>begin\<close> part that runs up to the request and a
  \<open>resume\<close> part that runs on the state found when the response arrives. Between the two
  parts other handlers may run. A handler is a closure of the render that built it: what
  it reads from \<open>loading\<close>, \<open>apiKey\<close> and \<open>lastCutoffId\<close> are the values of that render,
  while its setters act on the current state.
\<close>

subsection \<open>JavaScript numbers and strings, as far as the component uses them\<close>

text \<open>
  A string is a list of code units below 256. The numbers the component computes are
  \<open>NaN\<close>, the two infinities and doubles of integer value; \<open>Num n\<close> stands for the double
  of value \<open>n\<close>, and every operation gives the double nearest to its exact result.
\<close>

datatype jsnum = NaN | Num int | Infinity | MinusInfinity

function bitlen :: "int \<Rightarrow> nat" where
  "bitlen n = (if n \<le> 0 then 0 else Suc (bitlen (n div 2)))"
  by pat_completeness auto

termination
  by (relation "measure nat") auto

declare bitlen.simps [simp del]

text \<open>
  The double nearest to an integer, ties to the even significand of 53 bits; from
  \<open>2 ^ 1024\<close> on the result is infinite.
\<close>

definition to_double :: "int \<Rightarrow> jsnum" where
  "to_double n =
     (let m = \<bar>n\<bar> in
      if m < 2 ^ 53 then Num n
      else
        let e = bitlen m - 53;
            q = m div 2 ^ e;
            r = m mod 2 ^ e;
            h = 2 ^ (e - 1);
            q' = (if h < r \<or> (r = h \<and> odd q) then q + 1 else q);
            v = q' * 2 ^ e
        in if 2 ^ 1024 \<le> v then (if n < 0 then MinusInfinity else Infinity)
           else Num (if n < 0 then - v else v))"

definition js_less :: "jsnum \<Rightarrow> jsnum \<Rightarrow> bool" where
  "js_less x y =
     (case (x, y) of
        (Num a, Num b) \<Rightarrow> a < b
      | (Num a, Infinity) \<Rightarrow> True
      | (MinusInfinity, Num b) \<Rightarrow> True
      | (MinusInfinity, Infinity) \<Rightarrow> True
      | _ \<Rightarrow> False)"

definition js_ge :: "jsnum \<Rightarrow> jsnum \<Rightarrow> bool" where
  "js_ge x y = (x \<noteq> NaN \<and> y \<noteq> NaN \<and> \<not> js_less x y)"

definition js_gt :: "jsnum \<Rightarrow> jsnum \<Rightarrow> bool" where
  "js_gt x y = js_less y x"

definition js_minus :: "jsnum \<Rightarrow> jsnum \<Rightarrow> jsnum" where
  "js_minus x y =
     (case (x, y) of
        (NaN, _) \<Rightarrow> NaN
      | (_, NaN) \<Rightarrow> NaN
      | (Num a, Num b) \<Rightarrow> to_double (a - b)
      | (Num a, Infinity) \<Rightarrow> MinusInfinity
      | (Num a, MinusInfinity) \<Rightarrow> Infinity
      | (Infinity, Infinity) \<Rightarrow> NaN
      | (Infinity, _) \<Rightarrow> Infinity
      | (MinusInfinity, MinusInfinity) \<Rightarrow> NaN
      | (MinusInfinity, _) \<Rightarrow> MinusInfinity)"

definition js_max :: "jsnum \<Rightarrow> jsnum \<Rightarrow> jsnum" where
  "js_max x y = (if x = NaN \<or> y = NaN then NaN else if js_less x y then y else x)"

text \<open>\<open>Math.max(...xs)\<close> on a non-empty spread: first argument and the rest.\<close>

definition Math_max :: "jsnum \<Rightarrow> jsnum list \<Rightarrow> jsnum" where
  "Math_max x xs = foldl js_max x xs"

definition is_white :: "char \<Rightarrow> bool" where
  "is_white c = (of_char c \<in> {9, 10, 11, 12, 13, 32, 160 :: int})"

definition digit_val :: "char \<Rightarrow> int" where
  "digit_val c =
     (let n = (of_char c :: int) in
      if 48 \<le> n \<and> n \<le> 57 then n - 48
      else if 97 \<le> n \<and> n \<le> 122 then n - 87
      else if 65 \<le> n \<and> n \<le> 90 then n - 55
      else 36)"

definition is_digit :: "int \<Rightarrow> char \<Rightarrow> bool" where
  "is_digit radix c = (digit_val c < radix)"

definition radix_value :: "int \<Rightarrow> string \<Rightarrow> int" where
  "radix_value radix z = foldl (\<lambda>acc c. acc * radix + digit_val c) 0 z"

text \<open>
  \<open>parseInt(s)\<close> without a radix: leading white space is dropped, then an optional sign,
  then an optional \<open>0x\<close> prefix that selects radix 16; the longest prefix of digits is
  read, and no digit at all gives \<open>NaN\<close>. The result is the double of the integer read.
\<close>

definition strip_sign :: "string \<Rightarrow> bool \<times> string" where
  "strip_sign s =
     (case s of
        [] \<Rightarrow> (False, [])
      | c # r \<Rightarrow> if c = CHR ''-'' then (True, r)
                 else if c = CHR ''+'' then (False, r)
                 else (False, s))"

definition strip_prefix :: "string \<Rightarrow> int \<times> string" where
  "strip_prefix s =
     (case s of
        a # b # r \<Rightarrow> if a = CHR ''0'' \<and> (b = CHR ''x'' \<or> b = CHR ''X'') then (16, r)
                     else (10, s)
      | _ \<Rightarrow> (10, s))"

definition parseInt :: "string \<Rightarrow> jsnum" where
  "parseInt s =
     (let (neg, s2) = strip_sign (dropWhile is_white s);
          (radix, s3) = strip_prefix s2;
          z = takeWhile (is_digit radix) s3
      in if z = [] then NaN
         else to_double ((if neg then - 1 else 1) * radix_value radix z))"

definition digit_char :: "int \<Rightarrow> char" where
  "digit_char d = char_of (48 + d)"

text \<open>The decimal digits of an integer that is not negative.\<close>

function show_nat :: "int \<Rightarrow> string" where
  "show_nat n = (if n < 10 then [digit_char n] else show_nat (n div 10) @ [digit_char (n mod 10)])"
  by pat_completeness auto

termination
  by (relation "measure nat") auto

declare show_nat.simps [simp del]

text \<open>
  \<open>Number.prototype.toString()\<close>. Below \<open>2 ^ 53\<close> a double prints as its integer.
  Above, it prints the fewest digits that read back as the same double (the nearest such
  value, the even one on a tie), padded with zeros up to 21 digits and in exponent
  notation beyond.
\<close>

definition reads_back :: "int \<Rightarrow> int \<Rightarrow> bool" where
  "reads_back m v = (to_double v = Num m)"

definition candidate :: "int \<Rightarrow> nat \<Rightarrow> int option" where
  "candidate m k =
     (let scale = 10 ^ (length (show_nat m) - k);
          lo = (m div scale) * scale;
          hi = lo + scale
      in if reads_back m lo \<and> reads_back m hi
         then Some (if m - lo < hi - m then lo
                    else if hi - m < m - lo then hi
                    else if even (m div scale) then lo else hi)
         else if reads_back m lo then Some lo
         else if reads_back m hi then Some hi
         else None)"

definition shortest :: "int \<Rightarrow> int" where
  "shortest m = (case List.map_filter (candidate m) [1..<18] of [] \<Rightarrow> m | v # _ \<Rightarrow> v)"

definition strip_zeros :: "string \<Rightarrow> string" where
  "strip_zeros ds = rev (dropWhile (\<lambda>c. c = CHR ''0'') (rev ds))"

definition show_double :: "int \<Rightarrow> string" where
  "show_double m =
     (if m < 2 ^ 53 then show_nat m
      else
        let ds = show_nat (shortest m) in
        if length ds \<le> 21 then ds
        else (case strip_zeros ds of
                [] \<Rightarrow> []
              | d # more \<Rightarrow> d # (if more = [] then [] else CHR ''.'' # more))
             @ ''e+'' @ show_nat (int (length ds) - 1))"

definition show_number :: "int \<Rightarrow> string" where
  "show_number n = (if n < 0 then CHR ''-'' # show_double (- n) else show_double n)"

definition toString :: "jsnum \<Rightarrow> string" where
  "toString x =
     (case x of
        NaN \<Rightarrow> ''NaN''
      | Infinity \<Rightarrow> ''Infinity''
      | MinusInfinity \<Rightarrow> ''-Infinity''
      | Num n \<Rightarrow>
          (case to_double n of
             Num d \<Rightarrow> show_number d
           | Infinity \<Rightarrow> ''Infinity''
           | MinusInfinity \<Rightarrow> ''-Infinity''
           | NaN \<Rightarrow> ''NaN''))"

subsection \<open>Array.prototype.sort\<close>

text \<open>
  The sort of the V8 engine, as it runs on an array of fewer than 64 elements: the
  result of the comparison function counts as 0 when it is \<open>NaN\<close>; the run that starts
  the array is found (and reversed when it descends strictly), and every later element
  is put into the sorted part at the place a binary search gives. On a longer array the
  engine cuts several runs and merges them, which gives the same array whenever the
  comparison is a consistent order, the only case in which the language fixes the result.
\<close>

definition negative :: "jsnum \<Rightarrow> bool" where
  "negative order = (case order of Num n \<Rightarrow> n < 0 | MinusInfinity \<Rightarrow> True | _ \<Rightarrow> False)"

fun run_length :: "('a \<Rightarrow> 'a \<Rightarrow> jsnum) \<Rightarrow> bool \<Rightarrow> 'a \<Rightarrow> 'a list \<Rightarrow> nat" where
  "run_length cmp descending previous [] = 0"
| "run_length cmp descending previous (current # rest) =
     (if (if descending then \<not> negative (cmp current previous)
          else negative (cmp current previous))
      then 0
      else Suc (run_length cmp descending current rest))"

function find_slot :: "('a \<Rightarrow> 'a \<Rightarrow> jsnum) \<Rightarrow> 'a \<Rightarrow> 'a list \<Rightarrow> nat \<Rightarrow> nat \<Rightarrow> nat" where
  "find_slot cmp pivot a left right =
     (if left < right
      then (if negative (cmp pivot (a ! (left + (right - left) div 2)))
            then find_slot cmp pivot a left (left + (right - left) div 2)
            else find_slot cmp pivot a (left + (right - left) div 2 + 1) right)
      else left)"
  by pat_completeness auto

termination
  by (relation "measure (\<lambda>(cmp, pivot, a, left, right). right - left)") auto

declare find_slot.simps [simp del]

definition insert_pivot :: "('a \<Rightarrow> 'a \<Rightarrow> jsnum) \<Rightarrow> 'a list \<Rightarrow> 'a \<Rightarrow> 'a list" where
  "insert_pivot cmp sorted_part pivot =
     (let left = find_slot cmp pivot sorted_part 0 (length sorted_part)
      in take left sorted_part @ pivot # drop left sorted_part)"

definition Array_sort :: "('a \<Rightarrow> 'a \<Rightarrow> jsnum) \<Rightarrow> 'a list \<Rightarrow> 'a list" where
  "Array_sort cmp a =
     (case a of
        low # high # rest \<Rightarrow>
          (let descending = negative (cmp high low);
               n = 2 + run_length cmp descending high rest;
               run = take n a
           in foldl (insert_pivot cmp) (if descending then rev run else run) (drop n a))
      | _ \<Rightarrow> a)"

subsection \<open>The data and the state of the component\<close>

record Alert =
  fileId :: string
  sasUrl :: string
  alert :: string
  timestamp :: string

record state =
  alerts :: "Alert list"
  enlargedImageId :: "string option"
  loading :: bool
  error :: "string option"
  lastCutoffId :: string
  counter :: int
  apiKey :: "string option"
  showPasswordModal :: bool
  hasFetched :: bool
  interval :: "nat option"

definition initial :: state where
  "initial =
     \<lparr> alerts = [], enlargedImageId = None, loading = False, error = None,
       lastCutoffId = ''0'', counter = 0, apiKey = None, showPasswordModal = True,
       hasFetched = False, interval = None \<rparr>"

text \<open>
  What the handlers of one render have captured: the constants \<open>loading\<close>, \<open>apiKey\<close>
  and \<open>lastCutoffId\<close> of that render. A setter does not change them; only the next
  render builds handlers that see the new values.
\<close>

record closure =
  seen_loading :: bool
  seen_apiKey :: "string option"
  seen_lastCutoffId :: string

definition render :: "state \<Rightarrow> closure" where
  "render s =
     \<lparr> seen_loading = loading s, seen_apiKey = apiKey s, seen_lastCutoffId = lastCutoffId s \<rparr>"

text \<open>\<open>!apiKey\<close>: no key yet, or the empty string.\<close>

definition no_key :: "string option \<Rightarrow> bool" where
  "no_key k = (case k of None \<Rightarrow> True | Some v \<Rightarrow> v = [])"

definition sortAlerts :: "Alert list \<Rightarrow> Alert list" where
  "sortAlerts alertsToSort =
     Array_sort (\<lambda>a b. js_minus (parseInt (fileId b)) (parseInt (fileId a))) alertsToSort"

subsection \<open>The network, as the handlers see it\<close>

text \<open>
  What \<open>await fetch(...)\<close> gives back: the promise rejects (no connection), or it
  resolves to a response with its \<open>ok\<close> flag and the outcome of \<open>response.json()\<close>,
  \<open>None\<close> when the body is not JSON. Records of a body are taken at their declared
  TypeScript types.
\<close>

datatype 'b fetch_result = Rejected | Resolved bool "'b option"

text \<open>
  The body of \<open>/FileData\<close>: \<open>raw.data.map(...)\<close> throws a TypeError when \<open>raw\<close> has no
  array \<open>data\<close> (or an element of it is null); otherwise it yields the records.
\<close>

datatype filedata = Malformed | Data "Alert list"

record row =
  rowKey :: string
  count_of :: int

datatype counterdata = Counter_malformed | Rows "row list"

datatype effect = HttpGet string string | HttpPost string string | ConsoleError string

definition is_request :: "effect \<Rightarrow> bool" where
  "is_request e = (case e of ConsoleError _ \<Rightarrow> False | _ \<Rightarrow> True)"

definition key_of :: "string option \<Rightarrow> string" where
  "key_of k = (case k of None \<Rightarrow> [] | Some v \<Rightarrow> v)"

definition filedata_url :: "string \<Rightarrow> string" where
  "filedata_url cutoff =
     ''https://hackaton-processor-001.azurewebsites.net/FileData?cutoffId='' @ cutoff @
     ''&hasAlert=false&pageSize=100&resolvedAlert=false''"

definition counter_url :: string where
  "counter_url = ''https://hackaton-processor-001.azurewebsites.net/Counter?counterId=unique_counter''"

definition resolve_url :: "string \<Rightarrow> string" where
  "resolve_url fid = ''https://hackaton-processor-001.azurewebsites.net/resolvealert?fileId='' @ fid"

subsection \<open>fetchAlerts\<close>

text \<open>
  Up to the \<open>await\<close>: the guard, which reads the captured \<open>loading\<close> and \<open>apiKey\<close>, then
  \<open>setLoading(true)\<close>, \<open>setError(null)\<close> and the request, built from the captured
  \<open>lastCutoffId\<close> and \<open>apiKey\<close>.
\<close>

definition fetchAlerts_begin :: "closure \<Rightarrow> state \<Rightarrow> state \<times> effect list" where
  "fetchAlerts_begin c s =
     (if seen_loading c \<or> no_key (seen_apiKey c) then (s, [])
      else (s\<lparr> loading := True, error := None \<rparr>,
            [HttpGet (filedata_url (seen_lastCutoffId c)) (key_of (seen_apiKey c))]))"

text \<open>The part of the \<open>try\<close> block that can throw: the page, or nothing.\<close>

definition fetched_page :: "filedata fetch_result \<Rightarrow> Alert list option" where
  "fetched_page r =
     (case r of
        Rejected \<Rightarrow> None
      | Resolved ok_flag body \<Rightarrow>
          if \<not> ok_flag then None
          else (case body of
                  None \<Rightarrow> None
                | Some Malformed \<Rightarrow> None
                | Some (Data d) \<Rightarrow> Some d))"

text \<open>The updater passed to \<open>setAlerts\<close>; it is applied to the current collection.\<close>

definition merge_page :: "Alert list \<Rightarrow> Alert list \<Rightarrow> Alert list" where
  "merge_page prevAlerts data =
     (let existingFileIds = set (map fileId prevAlerts);
          newAlerts = filter (\<lambda>a. fileId a \<notin> existingFileIds) data
      in sortAlerts (prevAlerts @ newAlerts))"

definition fetchAlerts_resume :: "filedata fetch_result \<Rightarrow> state \<Rightarrow> state \<times> effect list" where
  "fetchAlerts_resume r s =
     (case fetched_page r of
        Some data \<Rightarrow>
          ((case data of
              [] \<Rightarrow> s
            | a # rest \<Rightarrow>
                s\<lparr> alerts := merge_page (alerts s) data,
                   lastCutoffId :=
                     toString (Math_max (parseInt (fileId a)) (map (\<lambda>b. parseInt (fileId b)) rest)) \<rparr>)
           \<lparr> loading := False \<rparr>, [])
      | None \<Rightarrow>
          (s\<lparr> error := Some ''Failed to fetch alerts. Please try again later.'',
              loading := False \<rparr>,
           [ConsoleError ''Fetch error:'']))"

text \<open>A whole call from the handler of the current render, with nothing running in between.\<close>

definition fetchAlerts :: "filedata fetch_result \<Rightarrow> state \<Rightarrow> state" where
  "fetchAlerts r s =
     (if loading s \<or> no_key (apiKey s) then s
      else fst (fetchAlerts_resume r (fst (fetchAlerts_begin (render s) s))))"

text \<open>The effect on mount, run when \<open>apiKey\<close> changes; \<open>hasFetched\<close> is a ref, read as it is now.\<close>

definition mount_effect :: "closure \<Rightarrow> state \<Rightarrow> state \<times> effect list" where
  "mount_effect c s =
     (if \<not> hasFetched s \<and> \<not> no_key (seen_apiKey c)
      then (let (s1, es) = fetchAlerts_begin c s in (s1\<lparr> hasFetched := True \<rparr>, es))
      else (s, []))"

subsection \<open>The counter poll\<close>

definition counter_effect :: "state \<Rightarrow> state" where
  "counter_effect s = s\<lparr> interval := Some 2000 \<rparr>"

definition counter_cleanup :: "state \<Rightarrow> state" where
  "counter_cleanup s = s\<lparr> interval := None \<rparr>"

definition counter_tick_begin :: "closure \<Rightarrow> effect list" where
  "counter_tick_begin c =
     (if no_key (seen_apiKey c) then [] else [HttpGet counter_url (key_of (seen_apiKey c))])"

text \<open>
  \<open>data.data.filter(...)[0].count\<close>: with no matching row the index gives
  \<open>undefined\<close> and reading \<open>count\<close> throws.
\<close>

definition counter_tick_resume :: "counterdata fetch_result \<Rightarrow> state \<Rightarrow> state \<times> effect list" where
  "counter_tick_resume r s =
     (case r of
        Resolved True (Some (Rows rows)) \<Rightarrow>
          (case filter (\<lambda>row. rowKey row = ''unique_counter'') rows of
             [] \<Rightarrow> (s, [ConsoleError ''Error fetching counter:''])
           | m # _ \<Rightarrow> (s\<lparr> counter := count_of m \<rparr>, []))
      | _ \<Rightarrow> (s, [ConsoleError ''Error fetching counter:'']))"

subsection \<open>resolveAlert and the other handlers\<close>

definition resolveAlert_begin :: "string \<Rightarrow> closure \<Rightarrow> effect list" where
  "resolveAlert_begin fid c =
     (if no_key (seen_apiKey c) then [] else [HttpPost (resolve_url fid) (key_of (seen_apiKey c))])"

definition resolveAlert_resume :: "string \<Rightarrow> unit fetch_result \<Rightarrow> state \<Rightarrow> state \<times> effect list" where
  "resolveAlert_resume fid r s =
     (case r of
        Resolved True _ \<Rightarrow>
          (s\<lparr> alerts := sortAlerts (filter (\<lambda>a. fileId a \<noteq> fid) (alerts s)) \<rparr>, [])
      | _ \<Rightarrow>
          (s\<lparr> error := Some ''Failed to resolve alert. Please try again.'' \<rparr>,
           [ConsoleError ''Error resolving alert:'']))"

definition toggleEnlargedImage :: "string option \<Rightarrow> state \<Rightarrow> state" where
  "toggleEnlargedImage fid s = s\<lparr> enlargedImageId := fid \<rparr>"

definition handlePasswordSubmit :: "string \<Rightarrow> state \<Rightarrow> state" where
  "handlePasswordSubmit inputPassword s =
     s\<lparr> apiKey := Some inputPassword, showPasswordModal := False \<rparr>"

text \<open>A run of calls of \<open>fetchAlerts\<close>, each one completed before the next starts.\<close>

definition fetch_pages :: "Alert list list \<Rightarrow> state \<Rightarrow> state" where
  "fetch_pages pages s = fold (\<lambda>p. fetchAlerts (Resolved True (Some (Data p)))) pages s"

subsection \<open>The notions the properties are stated with\<close>

text \<open>An id the component reads as an integer that a double holds exactly.\<close>

definition int_id :: "string \<Rightarrow> bool" where
  "int_id i = (case parseInt i of Num n \<Rightarrow> \<bar>n\<bar> < 2 ^ 53 | _ \<Rightarrow> False)"

definition id_val :: "Alert \<Rightarrow> int" where
  "id_val a = (case parseInt (fileId a) of Num n \<Rightarrow> n | _ \<Rightarrow> 0)"

definition int_ids :: "Alert list \<Rightarrow> bool" where
  "int_ids xs = list_all (\<lambda>a. int_id (fileId a)) xs"

definition descending :: "Alert list \<Rightarrow> bool" where
  "descending xs = sorted_wrt (\<lambda>a b. js_ge (parseInt (fileId a)) (parseInt (fileId b))) xs"

definition strictly_descending :: "Alert list \<Rightarrow> bool" where
  "strictly_descending xs = sorted_wrt (\<lambda>a b. js_gt (parseInt (fileId a)) (parseInt (fileId b))) xs"

definition alert_of :: "string \<Rightarrow> Alert" where
  "alert_of i = \<lparr> fileId = i, sasUrl = ''u'', alert = ''a'', timestamp = ''t'' \<rparr>"

definition signed_in :: state where
  "signed_in = handlePasswordSubmit ''key'' initial"

text \<open>States of a session, used to evaluate the properties.\<close>

definition pending :: state where
  "pending = fst (fetchAlerts_begin (render signed_in) signed_in)"

definition two_pages :: state where
  "two_pages = fetch_pages [[alert_of ''3'', alert_of ''1'', alert_of ''2''],
                            [alert_of ''5'', alert_of ''3'', alert_of ''4'']] signed_in"


definition tied :: state where
  "tied = fst (fetchAlerts_resume
     (Resolved True (Some (Data [alert_of ''01'', alert_of ''1'']))) pending)"



definition resolve_failed :: state where
  "resolve_failed = fst (resolveAlert_resume ''3'' Rejected signed_in)"

definition polling :: state where
  "polling = counter_effect signed_in"

section \<open>Facts about the sort\<close>

lemma mset_insert_pivot: "mset (insert_pivot cmp s p) = add_mset p (mset s)"
proof -
  have "mset (take l s) + mset (drop l s) = mset s" for l
    by (metis append_take_drop_id mset_append)
  then show ?thesis by (simp add: insert_pivot_def Let_def)
qed

lemma mset_foldl_insert_pivot:
  "mset (foldl (insert_pivot cmp) acc rest) = mset acc + mset rest"
  by (induction rest arbitrary: acc) (simp_all add: mset_insert_pivot)

lemma mset_Array_sort: "mset (Array_sort cmp a) = mset a"
proof (cases a)
  case Nil
  then show ?thesis by (simp add: Array_sort_def)
next
  case (Cons low t)
  show ?thesis
  proof (cases t)
    case Nil
    with Cons show ?thesis by (simp add: Array_sort_def)
  next
    case (Cons high rest)
    have split: "mset (take n a) + mset (drop n a) = mset a" for n
      by (metis append_take_drop_id mset_append)
    have "Array_sort cmp a =
        foldl (insert_pivot cmp)
          (if negative (cmp high low)
           then rev (take (2 + run_length cmp (negative (cmp high low)) high rest) a)
           else take (2 + run_length cmp (negative (cmp high low)) high rest) a)
          (drop (2 + run_length cmp (negative (cmp high low)) high rest) a)"
      using \<open>a = low # t\<close> Cons by (simp only: Array_sort_def Let_def list.case)
    then show ?thesis
      by (cases "negative (cmp high low)") (simp_all add: mset_foldl_insert_pivot split)
  qed
qed

lemma find_slot_spec:
  fixes k :: "'a \<Rightarrow> int"
  assumes "sorted (map k s)"
    and "\<forall>x\<in>set s. negative (cmp p x) = (k p < k x)"
    and "left \<le> right" and "right \<le> length s"
    and "\<forall>i<left. k (s ! i) \<le> k p"
    and "\<forall>i. right \<le> i \<and> i < length s \<longrightarrow> k p < k (s ! i)"
  shows "find_slot cmp p s left right \<le> length s
     \<and> (\<forall>i<find_slot cmp p s left right. k (s ! i) \<le> k p)
     \<and> (\<forall>i. find_slot cmp p s left right \<le> i \<and> i < length s \<longrightarrow> k p < k (s ! i))"
  using assms
proof (induction cmp p s left right rule: find_slot.induct)
  case (1 cmp pivot a left right)
  let ?mid = "left + (right - left) div 2"
  show ?case
  proof (cases "left < right")
    case False
    with 1(5-8) show ?thesis
      by (subst (1 2 3) find_slot.simps) auto
  next
    case True
    then have mid: "left \<le> ?mid" "?mid < right" by auto
    with 1(6) have inlist: "a ! ?mid \<in> set a" by simp
    show ?thesis
    proof (cases "negative (cmp pivot (a ! ?mid))")
      case neg: True
      with 1(4) inlist have lt: "k pivot < k (a ! ?mid)" by blast
      have above: "\<forall>i. ?mid \<le> i \<and> i < length a \<longrightarrow> k pivot < k (a ! i)"
      proof (intro allI impI)
        fix i assume i: "?mid \<le> i \<and> i < length a"
        with 1(3) have "k (a ! ?mid) \<le> k (a ! i)"
          by (simp add: sorted_iff_nth_mono)
        with lt show "k pivot < k (a ! i)" by simp
      qed
      have "find_slot cmp pivot a left ?mid \<le> length a
         \<and> (\<forall>i<find_slot cmp pivot a left ?mid. k (a ! i) \<le> k pivot)
         \<and> (\<forall>i. find_slot cmp pivot a left ?mid \<le> i \<and> i < length a \<longrightarrow> k pivot < k (a ! i))"
        using 1(1) [OF True neg 1(3) 1(4)] mid 1(6) 1(7) above by simp
      with True neg show ?thesis by (subst (1 2 3) find_slot.simps) simp
    next
      case nn: False
      with 1(4) inlist have ge: "k (a ! ?mid) \<le> k pivot" by auto
      have below: "\<forall>i<?mid + 1. k (a ! i) \<le> k pivot"
      proof (intro allI impI)
        fix i assume i: "i < ?mid + 1"
        with mid 1(6) 1(3) have "k (a ! i) \<le> k (a ! ?mid)"
          by (simp add: sorted_iff_nth_mono)
        with ge show "k (a ! i) \<le> k pivot" by simp
      qed
      have "find_slot cmp pivot a (?mid + 1) right \<le> length a
         \<and> (\<forall>i<find_slot cmp pivot a (?mid + 1) right. k (a ! i) \<le> k pivot)
         \<and> (\<forall>i. find_slot cmp pivot a (?mid + 1) right \<le> i \<and> i < length a \<longrightarrow> k pivot < k (a ! i))"
        using 1(2) [OF True nn 1(3) 1(4)] mid 1(6) 1(8) below by simp
      with True nn show ?thesis by (subst (1 2 3) find_slot.simps) simp
    qed
  qed
qed

lemma insert_pivot_split:
  fixes k :: "'a \<Rightarrow> int"
  assumes "sorted (map k s)" and "\<forall>x\<in>set s. negative (cmp p x) = (k p < k x)"
  obtains front behind where "s = front @ behind" and "insert_pivot cmp s p = front @ p # behind"
    and "\<forall>x\<in>set front. k x \<le> k p" and "\<forall>x\<in>set behind. k p < k x"
proof -
  let ?l = "find_slot cmp p s 0 (length s)"
  have spec: "?l \<le> length s \<and> (\<forall>i<?l. k (s ! i) \<le> k p)
     \<and> (\<forall>i. ?l \<le> i \<and> i < length s \<longrightarrow> k p < k (s ! i))"
  proof (rule find_slot_spec [where k = k and cmp = cmp and p = p and s = s and left = 0
        and right = "length s", OF assms])
    show "\<forall>i. length s \<le> i \<and> i < length s \<longrightarrow> k p < k (s ! i)" by auto
  qed simp_all
  have front: "\<forall>x\<in>set (take ?l s). k x \<le> k p"
  proof
    fix x assume "x \<in> set (take ?l s)"
    then obtain i where "i < length (take ?l s)" and "take ?l s ! i = x"
      by (auto simp: in_set_conv_nth)
    with spec show "k x \<le> k p" by auto
  qed
  have behind: "\<forall>x\<in>set (drop ?l s). k p < k x"
  proof
    fix x assume "x \<in> set (drop ?l s)"
    then obtain i where "i < length (drop ?l s)" and "drop ?l s ! i = x"
      by (auto simp: in_set_conv_nth)
    with spec show "k p < k x" by auto
  qed
  show thesis
    by (rule that [of "take ?l s" "drop ?l s"])
      (simp_all add: insert_pivot_def Let_def front behind)
qed

lemma insert_pivot_sorted:
  fixes k :: "'a \<Rightarrow> int"
  assumes "sorted (map k s)" and "\<forall>x\<in>set s. negative (cmp p x) = (k p < k x)"
  shows "sorted (map k (insert_pivot cmp s p))"
    and "filter (\<lambda>x. k x = v) (insert_pivot cmp s p) = filter (\<lambda>x. k x = v) (s @ [p])"
proof -
  from assms obtain front behind where fb: "s = front @ behind"
    "insert_pivot cmp s p = front @ p # behind"
    "\<forall>x\<in>set front. k x \<le> k p" "\<forall>x\<in>set behind. k p < k x"
    by (rule insert_pivot_split)
  from assms(1) fb show "sorted (map k (insert_pivot cmp s p))"
    by (auto simp: sorted_append)
  have "filter (\<lambda>x. k x = k p) behind = []"
    using fb(4) by (auto simp: filter_empty_conv)
  with fb show "filter (\<lambda>x. k x = v) (insert_pivot cmp s p) = filter (\<lambda>x. k x = v) (s @ [p])"
    by (cases "v = k p") auto
qed

lemma set_insert_pivot: "set (insert_pivot cmp s p) = insert p (set s)"
  using mset_insert_pivot [of cmp s p] by (metis set_mset_add_mset_insert set_mset_mset)

lemma foldl_insert_pivot_sorted:
  fixes k :: "'a \<Rightarrow> int"
  assumes "sorted (map k acc)"
    and "\<forall>x\<in>set acc \<union> set rest. \<forall>y\<in>set acc \<union> set rest. negative (cmp x y) = (k x < k y)"
  shows "sorted (map k (foldl (insert_pivot cmp) acc rest))
     \<and> (\<forall>v. filter (\<lambda>x. k x = v) (foldl (insert_pivot cmp) acc rest)
            = filter (\<lambda>x. k x = v) (acc @ rest))"
  using assms
proof (induction rest arbitrary: acc)
  case Nil
  then show ?case by simp
next
  case (Cons p rest)
  have cons: "\<forall>x\<in>set acc. negative (cmp p x) = (k p < k x)"
    using Cons.prems(2) by simp
  note ins = insert_pivot_sorted [where k = k and cmp = cmp and s = acc and p = p,
      OF Cons.prems(1) cons]
  have "\<forall>x\<in>set (insert_pivot cmp acc p) \<union> set rest.
          \<forall>y\<in>set (insert_pivot cmp acc p) \<union> set rest. negative (cmp x y) = (k x < k y)"
    using Cons.prems(2) by (simp add: set_insert_pivot)
  from Cons.IH [OF ins(1) this] ins(2) show ?case by simp
qed

lemma run_ascending:
  fixes k :: "'a \<Rightarrow> int"
  assumes "\<forall>x\<in>set (prev # rest). \<forall>y\<in>set (prev # rest). negative (cmp x y) = (k x < k y)"
  shows "sorted (map k (prev # take (run_length cmp False prev rest) rest))"
  using assms
proof (induction rest arbitrary: prev)
  case Nil
  then show ?case by simp
next
  case (Cons cur rest)
  show ?case
  proof (cases "negative (cmp cur prev)")
    case True
    then show ?thesis by simp
  next
    case False
    with Cons.prems have le: "k prev \<le> k cur" by auto
    have "sorted (map k (cur # take (run_length cmp False cur rest) rest))"
      using Cons.prems by (intro Cons.IH) simp
    with False le show ?thesis by (simp add: sorted2 del: sorted_wrt.simps)
  qed
qed

lemma run_descending:
  fixes k :: "'a \<Rightarrow> int"
  assumes "\<forall>x\<in>set (prev # rest). \<forall>y\<in>set (prev # rest). negative (cmp x y) = (k x < k y)"
  shows "sorted_wrt (\<lambda>x y. k y < k x) (prev # take (run_length cmp True prev rest) rest)"
  using assms
proof (induction rest arbitrary: prev)
  case Nil
  then show ?case by simp
next
  case (Cons cur rest)
  have tr: "transp (\<lambda>x y. k y < k x)" by (auto simp: transp_def)
  show ?case
  proof (cases "negative (cmp cur prev)")
    case False
    then show ?thesis by simp
  next
    case True
    with Cons.prems have lt: "k cur < k prev" by auto
    have "sorted_wrt (\<lambda>x y. k y < k x) (cur # take (run_length cmp True cur rest) rest)"
      using Cons.prems by (intro Cons.IH) simp
    with True lt show ?thesis by (simp add: sorted_wrt2 [OF tr] del: sorted_wrt.simps)
  qed
qed

lemma filter_key_rev:
  assumes "distinct (map k xs)"
  shows "filter (\<lambda>x. k x = v) (rev xs) = filter (\<lambda>x. k x = v) xs"
proof -
  have "length (filter (\<lambda>x. k x = v) xs) \<le> 1"
    using assms
  proof (induction xs)
    case Nil
    then show ?case by simp
  next
    case (Cons x xs)
    show ?case
    proof (cases "k x = v")
      case True
      have "k y \<noteq> v" if "y \<in> set xs" for y
      proof
        assume "k y = v"
        from that have "k y \<in> set (map k xs)" by simp
        with \<open>k y = v\<close> True have "k x \<in> set (map k xs)" by simp
        with Cons.prems show False by simp
      qed
      then have "filter (\<lambda>x. k x = v) xs = []"
        by (simp add: filter_empty_conv)
      with True show ?thesis by simp
    next
      case False
      with Cons show ?thesis by simp
    qed
  qed
  then have "rev (filter (\<lambda>x. k x = v) xs) = filter (\<lambda>x. k x = v) xs"
    by (cases "filter (\<lambda>x. k x = v) xs") auto
  then show ?thesis by (simp add: rev_filter)
qed

lemma first_run:
  fixes k :: "'a \<Rightarrow> int"
  assumes "\<forall>x\<in>set (low # high # rest). \<forall>y\<in>set (low # high # rest). negative (cmp x y) = (k x < k y)"
    and "d = negative (cmp high low)"
    and "run = low # high # take (run_length cmp d high rest) rest"
    and "run' = (if d then rev run else run)"
  shows "sorted (map k run') \<and> filter (\<lambda>x. k x = v) run' = filter (\<lambda>x. k x = v) run"
proof (cases d)
  case False
  have sub: "\<forall>x\<in>set (high # rest). \<forall>y\<in>set (high # rest). negative (cmp x y) = (k x < k y)"
    using assms(1) by simp
  from False assms(1,2) have "k low \<le> k high" by auto
  with run_ascending [OF sub] False assms(3,4) show ?thesis
    by (simp add: sorted2 del: sorted_wrt.simps)
next
  case True
  have sub: "\<forall>x\<in>set (high # rest). \<forall>y\<in>set (high # rest). negative (cmp x y) = (k x < k y)"
    using assms(1) by simp
  have tr: "transp (\<lambda>x y. k y < k x)" by (auto simp: transp_def)
  from True assms(1,2) have "k high < k low" by auto
  with run_descending [OF sub] True assms(3)
  have "sorted_wrt (\<lambda>x y. k y < k x) run"
    by (simp add: sorted_wrt2 [OF tr] del: sorted_wrt.simps)
  then have "sorted_wrt (\<lambda>x y. k x < k y) (rev run)"
    by (simp add: sorted_wrt_rev)
  then have "sorted_wrt (<) (map k (rev run))"
    by (simp add: sorted_wrt_map)
  then have srt: "sorted (map k (rev run))" and dist: "distinct (map k (rev run))"
    by (simp_all add: strict_sorted_iff)
  from dist have "distinct (map k run)" by (simp add: rev_map [symmetric])
  from filter_key_rev [OF this] srt True assms(4) show ?thesis by simp
qed

lemma Array_sort_sort_key:
  fixes k :: "'a \<Rightarrow> int"
  assumes "\<forall>x\<in>set a. \<forall>y\<in>set a. negative (cmp x y) = (k x < k y)"
  shows "Array_sort cmp a = sort_key k a"
proof (cases a)
  case Nil
  then show ?thesis by (simp add: Array_sort_def)
next
  case (Cons low t)
  show ?thesis
  proof (cases t)
    case Nil
    with Cons show ?thesis by (simp add: Array_sort_def)
  next
    case (Cons high rest)
    with \<open>a = low # t\<close> have a: "a = low # high # rest" by simp
    define d where "d = negative (cmp high low)"
    define n where "n = 2 + run_length cmp d high rest"
    define run where "run = low # high # take (run_length cmp d high rest) rest"
    define run' where "run' = (if d then rev run else run)"
    have tk: "take n a = run" and dr: "run @ drop n a = a"
      unfolding n_def run_def a by simp_all
    have res: "Array_sort cmp a = foldl (insert_pivot cmp) run' (drop n a)"
      unfolding run'_def tk [symmetric] n_def d_def a
      by (simp only: Array_sort_def Let_def list.case)
    have cons: "\<forall>x\<in>set (low # high # rest). \<forall>y\<in>set (low # high # rest).
                  negative (cmp x y) = (k x < k y)"
      using assms a by simp
    have fr: "sorted (map k run')" "\<And>v. filter (\<lambda>x. k x = v) run' = filter (\<lambda>x. k x = v) run"
      using first_run [where k = k, OF cons d_def run_def run'_def] by blast+
    have sets: "set run' \<union> set (drop n a) = set a"
    proof -
      have "set run' = set run" by (simp add: run'_def)
      then have "set run' \<union> set (drop n a) = set (run @ drop n a)" by simp
      then show ?thesis by (simp only: dr)
    qed
    have "\<forall>x\<in>set run' \<union> set (drop n a). \<forall>y\<in>set run' \<union> set (drop n a).
            negative (cmp x y) = (k x < k y)"
      using assms by (simp only: sets)
    from foldl_insert_pivot_sorted [where k = k, OF fr(1) this]
    have srt: "sorted (map k (Array_sort cmp a))"
      and flt: "\<And>v. filter (\<lambda>x. k x = v) (Array_sort cmp a) = filter (\<lambda>x. k x = v) (run' @ drop n a)"
      by (simp_all only: res)
    have flt': "filter (\<lambda>x. k x = v) (Array_sort cmp a) = filter (\<lambda>x. k x = v) a" for v
    proof -
      have "filter (\<lambda>x. k x = v) (run' @ drop n a) = filter (\<lambda>x. k x = v) (run @ drop n a)"
        by (simp add: fr(2))
      then show ?thesis by (simp only: flt dr)
    qed
    show ?thesis
    proof (rule sym, rule properties_for_sort_key)
      show "mset (Array_sort cmp a) = mset a" by (rule mset_Array_sort)
      show "sorted (map k (Array_sort cmp a))" by (rule srt)
    next
      fix x
      have "(\<lambda>y. k x = k y) = (\<lambda>y. k y = k x)" by auto
      then show "filter (\<lambda>y. k x = k y) (Array_sort cmp a) = filter (\<lambda>y. k x = k y) a"
        by (simp only: flt')
    qed
  qed
qed

section \<open>Facts about numbers and the order of alerts\<close>

lemma bitlen_lower: "0 < m \<Longrightarrow> 2 ^ (bitlen m - 1) \<le> m"
proof (induction m rule: bitlen.induct)
  case (1 n)
  show ?case
  proof (cases "n div 2 \<le> 0")
    case True
    with 1(2) have b: "bitlen (n div 2) = 0" by (subst bitlen.simps) simp
    from 1(2) have "bitlen n = Suc (bitlen (n div 2))" by (subst bitlen.simps) simp
    with b 1(2) show ?thesis by simp
  next
    case False
    then have pos: "0 < n div 2" by simp
    with 1(1) 1(2) have ih: "2 ^ (bitlen (n div 2) - 1) \<le> n div 2" by simp
    from pos have "bitlen (n div 2) = Suc (bitlen (n div 2 div 2))"
      by (subst bitlen.simps) simp
    then have "(2::int) ^ bitlen (n div 2) = 2 * 2 ^ (bitlen (n div 2) - 1)" by simp
    also have "\<dots> \<le> 2 * (n div 2)" using ih by simp
    also have "\<dots> \<le> n" by simp
    finally have "(2::int) ^ bitlen (n div 2) \<le> n" .
    moreover from 1(2) have "bitlen n = Suc (bitlen (n div 2))" by (subst bitlen.simps) simp
    ultimately show ?thesis by simp
  qed
qed

lemma to_double_small: "\<bar>n\<bar> < 2 ^ 53 \<Longrightarrow> to_double n = Num n"
  by (simp add: to_double_def)

lemma to_double_negative: "negative (to_double d) = (d < 0)"
proof (cases "\<bar>d\<bar> < 2 ^ 53")
  case True
  then show ?thesis by (simp add: to_double_small negative_def)
next
  case False
  define m where "m = \<bar>d\<bar>"
  define e where "e = bitlen m - 53"
  define q where "q = m div 2 ^ e"
  define q' where "q' = (if 2 ^ (e - 1) < m mod 2 ^ e \<or> (m mod 2 ^ e = 2 ^ (e - 1) \<and> odd q) then q + 1 else q)"
  define v where "v = q' * 2 ^ e"
  from False have big: "2 ^ 53 \<le> m" and mpos: "0 < m" by (simp_all add: m_def)
  have "(2::int) ^ e \<le> 2 ^ (bitlen m - 1)"
    unfolding e_def by (rule power_increasing) simp_all
  also have "\<dots> \<le> m" using mpos by (rule bitlen_lower)
  finally have "1 \<le> q" unfolding q_def
    by (metis div_by_1 pos_imp_zdiv_pos_iff zero_less_numeral zero_less_power less_le_not_le
        int_one_le_iff_zero_less)
  then have "0 < q'" by (simp add: q'_def)
  then have vpos: "0 < v" by (simp add: v_def)
  have val: "to_double d = (if 2 ^ 1024 \<le> v then (if d < 0 then MinusInfinity else Infinity)
                            else Num (if d < 0 then - v else v))"
    using False unfolding to_double_def Let_def v_def q'_def q_def e_def m_def by simp
  from vpos show ?thesis unfolding val by (simp add: negative_def)
qed

lemma parsed_of_int_ids:
  "int_ids xs \<Longrightarrow> a \<in> set xs \<Longrightarrow> parseInt (fileId a) = Num (id_val a) \<and> \<bar>id_val a\<bar> < 2 ^ 53"
  by (auto simp: int_ids_def list_all_iff int_id_def id_val_def split: jsnum.splits)

lemma parseInt_of_int_ids:
  "int_ids xs \<Longrightarrow> a \<in> set xs \<Longrightarrow> parseInt (fileId a) = Num (id_val a)"
  by (simp add: parsed_of_int_ids)

lemma sortAlerts_int_ids:
  assumes "int_ids xs"
  shows "sortAlerts xs = sort_key (\<lambda>a. - id_val a) xs"
  unfolding sortAlerts_def
proof (rule Array_sort_sort_key, intro ballI)
  fix x y assume "x \<in> set xs" and "y \<in> set xs"
  with assms have "parseInt (fileId x) = Num (id_val x)" and "parseInt (fileId y) = Num (id_val y)"
    by (simp_all add: parseInt_of_int_ids)
  then show "negative (js_minus (parseInt (fileId y)) (parseInt (fileId x)))
             = (- id_val x < - id_val y)"
    by (simp add: js_minus_def to_double_negative)
qed

lemma mset_sortAlerts: "mset (sortAlerts xs) = mset xs"
  by (simp add: sortAlerts_def mset_Array_sort)

lemma set_sortAlerts: "set (sortAlerts xs) = set xs"
  using mset_sortAlerts [of xs] by (metis set_mset_mset)

lemma js_less_Num: "js_less (Num a) (Num b) = (a < b)"
  by (simp add: js_less_def)

lemma distinct_ids_sortAlerts:
  "distinct (map fileId (sortAlerts xs)) = distinct (map fileId xs)"
proof -
  have "mset (map fileId (sortAlerts xs)) = mset (map fileId xs)"
    using mset_sortAlerts [of xs] by (metis mset_map)
  then show ?thesis by (rule mset_eq_imp_distinct_iff)
qed

lemma distinct_ids_merge_page:
  assumes "distinct (map fileId prev)" and "distinct (map fileId page)"
  shows "distinct (map fileId (merge_page prev page))"
proof -
  let ?new = "filter (\<lambda>a. fileId a \<notin> set (map fileId prev)) page"
  have "distinct (map fileId ?new)"
    using assms(2) by (rule distinct_map_filter)
  moreover have "set (map fileId prev) \<inter> set (map fileId ?new) = {}"
  proof (rule ccontr)
    assume "set (map fileId prev) \<inter> set (map fileId ?new) \<noteq> {}"
    then obtain i where "i \<in> fileId ` set prev" and "i \<in> fileId ` set ?new"
      by auto
    then obtain b where "b \<in> set ?new" and "i = fileId b" by blast
    with \<open>i \<in> fileId ` set prev\<close> show False by simp
  qed
  ultimately have "distinct (map fileId (prev @ ?new))"
    using assms(1) by simp
  then show ?thesis
    by (simp add: merge_page_def Let_def distinct_ids_sortAlerts del: map_append)
qed

lemma alerts_fetchAlerts_resume:
  "alerts (fst (fetchAlerts_resume r s)) =
     (case fetched_page r of
        None \<Rightarrow> alerts s
      | Some page \<Rightarrow> if page = [] then alerts s else merge_page (alerts s) page)"
  by (simp add: fetchAlerts_resume_def split: option.splits list.splits)

lemma alerts_fetchAlerts_begin: "alerts (fst (fetchAlerts_begin c s)) = alerts s"
  by (simp add: fetchAlerts_begin_def)

lemma distinct_ids_fetchAlerts:
  assumes "distinct (map fileId (alerts s))" and "distinct (map fileId page)"
  shows "distinct (map fileId (alerts (fetchAlerts (Resolved True (Some (Data page))) s)))"
  using assms
  by (simp add: fetchAlerts_def alerts_fetchAlerts_resume alerts_fetchAlerts_begin
      fetched_page_def distinct_ids_merge_page)

lemma distinct_ids_fetch_pages:
  assumes "distinct (map fileId (alerts s))" and "\<forall>p\<in>set pages. distinct (map fileId p)"
  shows "distinct (map fileId (alerts (fetch_pages pages s)))"
  using assms unfolding fetch_pages_def
proof (induction pages arbitrary: s)
  case Nil
  then show ?case by simp
next
  case (Cons p pages)
  then show ?case by (simp add: distinct_ids_fetchAlerts)
qed

lemma int_ids_sortAlerts [simp]: "int_ids (sortAlerts xs) = int_ids xs"
  by (simp add: int_ids_def list_all_iff set_sortAlerts)

lemma int_ids_append [simp]: "int_ids (xs @ ys) = (int_ids xs \<and> int_ids ys)"
  by (simp add: int_ids_def)

lemma int_ids_filter: "int_ids xs \<Longrightarrow> int_ids (filter P xs)"
  by (simp add: int_ids_def list_all_iff)

lemma int_ids_merge_page:
  "int_ids prev \<Longrightarrow> int_ids page \<Longrightarrow> int_ids (merge_page prev page)"
  by (simp add: merge_page_def Let_def int_ids_filter)

lemma descending_iff:
  assumes "int_ids xs"
  shows "descending xs = sorted (map (\<lambda>a. - id_val a) xs)"
proof -
  have "sorted_wrt (\<lambda>a b. js_ge (parseInt (fileId a)) (parseInt (fileId b))) xs
        = sorted_wrt (\<lambda>a b. - id_val a \<le> - id_val b) xs"
  proof
    assume "sorted_wrt (\<lambda>a b. js_ge (parseInt (fileId a)) (parseInt (fileId b))) xs"
    then show "sorted_wrt (\<lambda>a b. - id_val a \<le> - id_val b) xs"
      by (rule sorted_wrt_mono_rel [rotated])
        (simp add: parseInt_of_int_ids [OF assms] js_ge_def js_less_Num)
  next
    assume "sorted_wrt (\<lambda>a b. - id_val a \<le> - id_val b) xs"
    then show "sorted_wrt (\<lambda>a b. js_ge (parseInt (fileId a)) (parseInt (fileId b))) xs"
      by (rule sorted_wrt_mono_rel [rotated])
        (simp add: parseInt_of_int_ids [OF assms] js_ge_def js_less_Num)
  qed
  then show ?thesis by (simp add: descending_def sorted_map)
qed

lemma strictly_descending_iff:
  assumes "int_ids xs"
  shows "strictly_descending xs = (descending xs \<and> distinct (map id_val xs))"
proof -
  have "sorted_wrt (\<lambda>a b. js_gt (parseInt (fileId a)) (parseInt (fileId b))) xs
        = sorted_wrt (\<lambda>a b. - id_val a < - id_val b) xs"
  proof
    assume "sorted_wrt (\<lambda>a b. js_gt (parseInt (fileId a)) (parseInt (fileId b))) xs"
    then show "sorted_wrt (\<lambda>a b. - id_val a < - id_val b) xs"
      by (rule sorted_wrt_mono_rel [rotated])
        (simp add: parseInt_of_int_ids [OF assms] js_gt_def js_less_Num)
  next
    assume "sorted_wrt (\<lambda>a b. - id_val a < - id_val b) xs"
    then show "sorted_wrt (\<lambda>a b. js_gt (parseInt (fileId a)) (parseInt (fileId b))) xs"
      by (rule sorted_wrt_mono_rel [rotated])
        (simp add: parseInt_of_int_ids [OF assms] js_gt_def js_less_Num)
  qed
  also have "\<dots> = sorted_wrt (<) (map (\<lambda>a. - id_val a) xs)"
    by (simp add: sorted_wrt_map)
  also have "\<dots> = (sorted (map (\<lambda>a. - id_val a) xs) \<and> distinct (map (\<lambda>a. - id_val a) xs))"
    by (rule strict_sorted_iff)
  also have "distinct (map (\<lambda>a. - id_val a) xs) = distinct (map id_val xs)"
  proof -
    have "map (\<lambda>a. - id_val a) xs = map uminus (map id_val xs)" by simp
    then show ?thesis by (simp only: distinct_map) (auto simp: inj_on_def)
  qed
  finally show ?thesis by (simp add: strictly_descending_def descending_iff [OF assms])
qed

lemma descending_sortAlerts:
  assumes "int_ids xs"
  shows "descending (sortAlerts xs)"
proof -
  from assms have "int_ids (sortAlerts xs)" by simp
  then have "descending (sortAlerts xs) = sorted (map (\<lambda>a. - id_val a) (sortAlerts xs))"
    by (rule descending_iff)
  with assms show ?thesis by (simp add: sortAlerts_int_ids)
qed





lemma alerts_resolveAlert_ok:
  "alerts (fst (resolveAlert_resume fid (Resolved True b) s)) =
     sortAlerts (filter (\<lambda>a. fileId a \<noteq> fid) (alerts s))"
  by (simp add: resolveAlert_resume_def)

lemma alerts_fetchAlerts_ok:
  "alerts (fst (fetchAlerts_resume (Resolved True (Some (Data page))) s)) =
     (if page = [] then alerts s else merge_page (alerts s) page)"
  by (simp add: alerts_fetchAlerts_resume fetched_page_def)

section \<open>Facts about numbers and their text\<close>













lemma foldl_js_max_NaN: "foldl js_max NaN xs = NaN"
  by (induction xs) (simp_all add: js_max_def)

lemma foldl_js_max_has_NaN: "NaN \<in> set xs \<Longrightarrow> foldl js_max x xs = NaN"
proof (induction xs arbitrary: x)
  case Nil
  then show ?case by simp
next
  case (Cons y ys)
  show ?case
  proof (cases "y = NaN")
    case True
    then have "js_max x y = NaN" by (simp add: js_max_def)
    then show ?thesis by (simp add: foldl_js_max_NaN)
  next
    case False
    with Cons show ?thesis by simp
  qed
qed

lemma Math_max_NaN:
  assumes "\<exists>b\<in>set (a # rest). parseInt (fileId b) = NaN"
  shows "Math_max (parseInt (fileId a)) (map (\<lambda>b. parseInt (fileId b)) rest) = NaN"
proof (cases "parseInt (fileId a) = NaN")
  case True
  then show ?thesis by (simp add: Math_max_def foldl_js_max_NaN)
next
  case False
  with assms have "NaN \<in> set (map (\<lambda>b. parseInt (fileId b)) rest)" by force
  then show ?thesis unfolding Math_max_def by (rule foldl_js_max_has_NaN)
qed

lemma lastCutoffId_fetchAlerts_ok:
  "lastCutoffId (fst (fetchAlerts_resume (Resolved True (Some (Data (a # rest)))) s)) =
     toString (Math_max (parseInt (fileId a)) (map (\<lambda>b. parseInt (fileId b)) rest))"
  by (simp add: fetchAlerts_resume_def fetched_page_def)

section \<open>The properties\<close>

text \<open>
  C1 (as amended). Start from a state with an empty collection and run any sequence of
  calls of fetchAlerts that each return a page. If no page holds the same fileId twice,
  the collection holds each fileId at most once, whatever the overlap between a page
  and the records merged before. The filter looks only at the collection as it was
  before the merge, so a fileId repeated inside one page is kept twice: see the
  counterexample.
\<close>

theorem dedup_invariant:
  assumes "alerts s = []" and "\<forall>p\<in>set pages. distinct (map fileId p)"
  shows "distinct (map fileId (alerts (fetch_pages pages s)))"
  using assms by (simp add: distinct_ids_fetch_pages)

theorem dedup_invariant_witness:
  "alerts signed_in = []
   \<and> list_all (\<lambda>p. distinct (map fileId p))
        [[alert_of ''3'', alert_of ''1'', alert_of ''2''], [alert_of ''5'', alert_of ''3'', alert_of ''4'']]
   \<and> map fileId (alerts (fetch_pages [[alert_of ''3'', alert_of ''1'', alert_of ''2''],
        [alert_of ''5'', alert_of ''3'', alert_of ''4'']] signed_in)) = [''5'', ''4'', ''3'', ''2'', ''1'']
   \<and> distinct (map fileId (alerts (fetch_pages [[alert_of ''3'', alert_of ''1'', alert_of ''2''],
        [alert_of ''5'', alert_of ''3'', alert_of ''4'']] signed_in)))"
proof -
  have e: "alerts signed_in = []" by code_simp
  have d: "list_all (\<lambda>p. distinct (map fileId p))
        [[alert_of ''3'', alert_of ''1'', alert_of ''2''], [alert_of ''5'', alert_of ''3'', alert_of ''4'']]"
    by code_simp
  have v: "map fileId (alerts (fetch_pages [[alert_of ''3'', alert_of ''1'', alert_of ''2''],
        [alert_of ''5'', alert_of ''3'', alert_of ''4'']] signed_in)) = [''5'', ''4'', ''3'', ''2'', ''1'']"
    by code_simp
  from dedup_invariant [OF e d [unfolded list_all_iff]] e d v show ?thesis by blast
qed

theorem dedup_within_page_counterexample:
  "\<not> distinct (map fileId (alerts (fetch_pages [[alert_of ''5'', alert_of ''5'']] signed_in)))"
  by code_simp

text \<open>
  C2 (as amended). After every successful merge of a non-empty page and after every
  successful removal, if every fileId of the collection and of the page reads as an
  integer below \<open>2 ^ 53\<close> in magnitude, the collection is sorted descending by the integer
  value of fileId, equal values allowed, and records of equal value stay in the order in
  which they arrived (in a merge the prior collection first, then the new records of the
  page; in a removal the order of the prior collection). It is strictly descending
  exactly when no two of its records have the same integer value. Two records with different fileId texts of the same value, such as 1 and 01, or
  a fileId repeated inside a page, give an order that is not strict: see the
  counterexample.
\<close>

theorem order_invariant:
  assumes "int_ids (alerts s)" and "int_ids page" and "page \<noteq> []"
    and "s1 = fst (fetchAlerts_resume (Resolved True (Some (Data page))) s)"
    and "s2 = fst (resolveAlert_resume fid (Resolved True b) s)"
  shows "descending (alerts s1) \<and> descending (alerts s2)
     \<and> strictly_descending (alerts s1) = distinct (map id_val (alerts s1))
     \<and> strictly_descending (alerts s2) = distinct (map id_val (alerts s2))
     \<and> (\<forall>v. filter (\<lambda>a. id_val a = v) (alerts s1) =
              filter (\<lambda>a. id_val a = v)
                (alerts s @ filter (\<lambda>a. fileId a \<notin> set (map fileId (alerts s))) page))
     \<and> (\<forall>v. filter (\<lambda>a. id_val a = v) (alerts s2) =
              filter (\<lambda>a. id_val a = v) (filter (\<lambda>a. fileId a \<noteq> fid) (alerts s)))"
proof -
  let ?new = "filter (\<lambda>a. fileId a \<notin> set (map fileId (alerts s))) page"
  let ?kept = "filter (\<lambda>a. fileId a \<noteq> fid) (alerts s)"
  have a1: "alerts s1 = sortAlerts (alerts s @ ?new)"
    using assms(3,4) by (simp add: alerts_fetchAlerts_ok merge_page_def)
  have a2: "alerts s2 = sortAlerts ?kept"
    using assms(5) by (simp add: alerts_resolveAlert_ok)
  have i1: "int_ids (alerts s @ ?new)"
    using assms(1,2) by (simp add: int_ids_filter)
  have i2: "int_ids ?kept"
    using assms(1) by (rule int_ids_filter)
  have d1: "descending (alerts s1)"
    unfolding a1 using i1 by (rule descending_sortAlerts)
  have d2: "descending (alerts s2)"
    unfolding a2 using i2 by (rule descending_sortAlerts)
  have j1: "int_ids (alerts s1)" unfolding a1 using i1 by simp
  have j2: "int_ids (alerts s2)" unfolding a2 using i2 by simp
  have stable: "filter (\<lambda>a. id_val a = v) (sortAlerts xs) = filter (\<lambda>a. id_val a = v) xs"
    if "int_ids xs" for xs v
  proof -
    have "(\<lambda>a. id_val a = v) = (\<lambda>a. - id_val a = - v)" by auto
    then show ?thesis
      by (simp only: sortAlerts_int_ids [OF that] sort_key_stable)
  qed
  from d1 d2 strictly_descending_iff [OF j1] strictly_descending_iff [OF j2]
    stable [OF i1] stable [OF i2]
  show ?thesis by (simp add: a1 a2)
qed

theorem order_invariant_witness:
  "int_ids (alerts tied) \<and> int_ids [alert_of ''2'', alert_of ''1'', alert_of ''001'']
   \<and> map fileId (alerts tied) = [''01'', ''1'']
   \<and> map fileId (alerts (fst (fetchAlerts_resume
        (Resolved True (Some (Data [alert_of ''2'', alert_of ''1'', alert_of ''001'']))) tied)))
       = [''2'', ''01'', ''1'', ''001'']
   \<and> descending (alerts (fst (fetchAlerts_resume
        (Resolved True (Some (Data [alert_of ''2'', alert_of ''1'', alert_of ''001'']))) tied)))
   \<and> filter (\<lambda>a. id_val a = 1) (alerts (fst (fetchAlerts_resume
        (Resolved True (Some (Data [alert_of ''2'', alert_of ''1'', alert_of ''001'']))) tied)))
       = [alert_of ''01'', alert_of ''1'', alert_of ''001'']
   \<and> map fileId (alerts (fst (resolveAlert_resume ''3'' (Resolved True None) two_pages)))
       = [''5'', ''4'', ''2'', ''1'']
   \<and> descending (alerts (fst (resolveAlert_resume ''3'' (Resolved True None) two_pages)))"
proof -
  have a: "int_ids (alerts tied)" by code_simp
  have a': "int_ids (alerts two_pages)" by code_simp
  have b: "int_ids [alert_of ''2'', alert_of ''1'', alert_of ''001'']" by code_simp
  have c: "[alert_of ''2'', alert_of ''1'', alert_of ''001''] \<noteq> []" by simp
  have t: "map fileId (alerts tied) = [''01'', ''1'']" by code_simp
  have v1: "map fileId (alerts (fst (fetchAlerts_resume
        (Resolved True (Some (Data [alert_of ''2'', alert_of ''1'', alert_of ''001'']))) tied)))
       = [''2'', ''01'', ''1'', ''001'']" by code_simp
  have v2: "map fileId (alerts (fst (resolveAlert_resume ''3'' (Resolved True None) two_pages)))
       = [''5'', ''4'', ''2'', ''1'']" by code_simp
  have f: "filter (\<lambda>a. id_val a = 1)
        (alerts tied @ filter (\<lambda>a. fileId a \<notin> set (map fileId (alerts tied)))
           [alert_of ''2'', alert_of ''1'', alert_of ''001''])
       = [alert_of ''01'', alert_of ''1'', alert_of ''001'']" by code_simp
  note w1 = order_invariant [OF a b c refl refl, of "''3''" None]
  note w2 = order_invariant [OF a' b c refl refl, of "''3''" None]
  from w1 have 1: "descending (alerts (fst (fetchAlerts_resume
        (Resolved True (Some (Data [alert_of ''2'', alert_of ''1'', alert_of ''001'']))) tied)))"
    by blast
  from w1 have "filter (\<lambda>a. id_val a = 1) (alerts (fst (fetchAlerts_resume
        (Resolved True (Some (Data [alert_of ''2'', alert_of ''1'', alert_of ''001'']))) tied)))
      = filter (\<lambda>a. id_val a = 1)
        (alerts tied @ filter (\<lambda>a. fileId a \<notin> set (map fileId (alerts tied)))
           [alert_of ''2'', alert_of ''1'', alert_of ''001''])"
    by blast
  with f have 2: "filter (\<lambda>a. id_val a = 1) (alerts (fst (fetchAlerts_resume
        (Resolved True (Some (Data [alert_of ''2'', alert_of ''1'', alert_of ''001'']))) tied)))
       = [alert_of ''01'', alert_of ''1'', alert_of ''001'']" by simp
  from w2 have 3: "descending (alerts (fst (resolveAlert_resume ''3'' (Resolved True None) two_pages)))"
    by blast
  from a b t v1 v2 1 2 3 show ?thesis by blast
qed

theorem order_not_strict_counterexample:
  "alerts (fst (fetchAlerts_resume (Resolved True (Some (Data [alert_of ''1'', alert_of ''01'']))) pending))
     = [alert_of ''1'', alert_of ''01'']
   \<and> \<not> strictly_descending [alert_of ''1'', alert_of ''01'']
   \<and> distinct (map fileId [alert_of ''1'', alert_of ''01''])
   \<and> alerts (fst (fetchAlerts_resume (Resolved True (Some (Data [alert_of ''5'', alert_of ''5'']))) pending))
     = [alert_of ''5'', alert_of ''5'']
   \<and> \<not> strictly_descending [alert_of ''5'', alert_of ''5'']"
  by code_simp




text \<open>
  C4. Single flight: while a fetch is pending, a further call of fetchAlerts should send
  no second request and change nothing. The guard reads the \<open>loading\<close> constant that the
  handler captured when its render built it, and \<open>setLoading(true)\<close> does not reach a
  handler already built. So a second call of the same handler, before the next render,
  passes the guard and sends the request again while the first is pending, against the
  comment on the guard. Only a handler built by a render that saw \<open>loading\<close> true drops
  the call. The theorem evaluates the two calls of one handler, then the call of the
  next render's handler.
\<close>

theorem stale_closure_second_request:
  "\<not> seen_loading (render signed_in)
   \<and> fetchAlerts_begin (render signed_in) signed_in = (pending, [HttpGet (filedata_url ''0'') ''key''])
   \<and> loading pending
   \<and> fetchAlerts_begin (render signed_in) pending = (pending, [HttpGet (filedata_url ''0'') ''key''])
   \<and> fetchAlerts_begin (render pending) pending = (pending, [])"
  by code_simp

lemma guard_of_current_render:
  assumes "loading s"
  shows "fetchAlerts_begin (render s) s = (s, [])" and "fetchAlerts r s = s"
    and "filter is_request (snd (fetchAlerts_resume r s)) = []"
  using assms
  by (simp_all add: fetchAlerts_begin_def render_def fetchAlerts_def fetchAlerts_resume_def
      is_request_def split: option.splits)

text \<open>
  C5. A call of fetchAlerts that fails (rejected fetch, response not ok, body that is
  not JSON or has no data array) changes nothing but the error, which is published, and
  loading, which is reset to false; loading is false after every completion, success or
  failure. A call of resolveAlert that fails changes nothing but the published error,
  and issues no further request.
\<close>

theorem failure_atomicity:
  assumes "r = Rejected \<or> r = Resolved False body \<or> r = Resolved True None
           \<or> r = Resolved True (Some Malformed)"
    and "q = Rejected \<or> q = Resolved False b"
  shows "fst (fetchAlerts_resume r s) =
           s\<lparr> error := Some ''Failed to fetch alerts. Please try again later.'', loading := False \<rparr>
     \<and> snd (fetchAlerts_resume r s) = [ConsoleError ''Fetch error:'']
     \<and> alerts (fst (fetchAlerts_resume r s)) = alerts s
     \<and> lastCutoffId (fst (fetchAlerts_resume r s)) = lastCutoffId s
     \<and> loading (fst (fetchAlerts_resume r' s)) = False
     \<and> fst (resolveAlert_resume fid q s) =
           s\<lparr> error := Some ''Failed to resolve alert. Please try again.'' \<rparr>
     \<and> snd (resolveAlert_resume fid q s) = [ConsoleError ''Error resolving alert:'']
     \<and> alerts (fst (resolveAlert_resume fid q s)) = alerts s"
proof -
  from assms(1) have f: "fetched_page r = None"
    by (auto simp: fetched_page_def)
  have l: "loading (fst (fetchAlerts_resume r' s)) = False"
    by (simp add: fetchAlerts_resume_def split: option.splits list.splits)
  from assms(2) have g: "resolveAlert_resume fid q s =
      (s\<lparr> error := Some ''Failed to resolve alert. Please try again.'' \<rparr>,
       [ConsoleError ''Error resolving alert:''])"
    by (auto simp: resolveAlert_resume_def)
  from f l g show ?thesis by (simp add: fetchAlerts_resume_def)
qed

theorem failure_atomicity_witness:
  "fst (fetchAlerts_resume (Resolved False None) pending) =
     pending\<lparr> error := Some ''Failed to fetch alerts. Please try again later.'', loading := False \<rparr>
   \<and> loading (fst (fetchAlerts_resume (Resolved False None) pending)) = False
   \<and> loading pending
   \<and> alerts (fst (resolveAlert_resume ''3'' Rejected signed_in)) = alerts signed_in
   \<and> error (fst (resolveAlert_resume ''3'' Rejected signed_in)) =
       Some ''Failed to resolve alert. Please try again.''"
proof -
  have r: "Resolved False None = (Rejected :: filedata fetch_result)
         \<or> Resolved False None = (Resolved False None :: filedata fetch_result)
         \<or> Resolved False None = (Resolved True None :: filedata fetch_result)
         \<or> (Resolved False None :: filedata fetch_result) = Resolved True (Some Malformed)"
    by simp
  have q: "(Rejected :: unit fetch_result) = Rejected \<or> (Rejected :: unit fetch_result) = Resolved False None"
    by simp
  have l: "loading pending" by code_simp
  from failure_atomicity [OF r q, of pending "Resolved False None" "''3''"]
    failure_atomicity [OF r q, of signed_in "Resolved False None" "''3''"] l
  show ?thesis by simp
qed










text \<open>
  C8 (as amended). A response whose body is not JSON, or has no data array, makes
  fetchAlerts fail: collection and cutoff unchanged, loading reset, error published. A
  page with a fileId that does not read as a number is not rejected: its records are
  merged under the usual rule, lastCutoffId becomes the text NaN, and no error is
  published. See the counterexample.
\<close>

theorem malformed_payload:
  assumes "r = Resolved True None \<or> r = Resolved True (Some Malformed)"
    and "page \<noteq> []" and "\<exists>a\<in>set page. parseInt (fileId a) = NaN"
    and "s' = fst (fetchAlerts_resume (Resolved True (Some (Data page))) s)"
  shows "fst (fetchAlerts_resume r s) =
           s\<lparr> error := Some ''Failed to fetch alerts. Please try again later.'', loading := False \<rparr>
     \<and> snd (fetchAlerts_resume r s) = [ConsoleError ''Fetch error:'']
     \<and> lastCutoffId s' = ''NaN''
     \<and> mset (alerts s') =
         mset (alerts s) + mset (filter (\<lambda>a. fileId a \<notin> set (map fileId (alerts s))) page)
     \<and> error s' = error s
     \<and> loading s' = False
     \<and> snd (fetchAlerts_resume (Resolved True (Some (Data page))) s) = []"
proof -
  from assms(1) have f: "fetched_page r = None" by (auto simp: fetched_page_def)
  from assms(2) obtain a rest where page: "page = a # rest" by (cases page) auto
  have cut: "lastCutoffId s' = ''NaN''"
    using assms(3) unfolding assms(4) page
    by (simp only: lastCutoffId_fetchAlerts_ok Math_max_NaN) (simp add: toString_def)
  have al: "alerts s' = merge_page (alerts s) page"
    using assms(2) unfolding assms(4) by (simp add: alerts_fetchAlerts_ok)
  have ms: "mset (alerts s') =
         mset (alerts s) + mset (filter (\<lambda>a. fileId a \<notin> set (map fileId (alerts s))) page)"
    unfolding al by (simp add: merge_page_def Let_def mset_sortAlerts)
  have rest: "error s' = error s \<and> loading s' = False
     \<and> snd (fetchAlerts_resume (Resolved True (Some (Data page))) s) = []"
    unfolding assms(4) page by (simp add: fetchAlerts_resume_def fetched_page_def)
  from f cut ms rest show ?thesis by (simp add: fetchAlerts_resume_def)
qed

theorem malformed_payload_witness:
  "fst (fetchAlerts_resume (Resolved True (Some Malformed)) pending) =
     pending\<lparr> error := Some ''Failed to fetch alerts. Please try again later.'', loading := False \<rparr>
   \<and> parseInt ''abc'' = NaN
   \<and> lastCutoffId (fst (fetchAlerts_resume (Resolved True (Some (Data [alert_of ''7'', alert_of ''abc'']))) pending))
       = ''NaN''
   \<and> loading (fst (fetchAlerts_resume (Resolved True (Some (Data [alert_of ''7'', alert_of ''abc'']))) pending))
       = False"
proof -
  have r: "Resolved True (Some Malformed) = (Resolved True None :: filedata fetch_result)
           \<or> Resolved True (Some Malformed) = Resolved True (Some Malformed)" by simp
  have p: "[alert_of ''7'', alert_of ''abc''] \<noteq> []" by simp
  have n: "parseInt ''abc'' = NaN" by code_simp
  have e: "\<exists>a\<in>set [alert_of ''7'', alert_of ''abc'']. parseInt (fileId a) = NaN"
    using n by (simp add: alert_of_def)
  note w = malformed_payload [OF r p e refl, of pending]
  from w n show ?thesis by blast
qed

theorem unparsable_id_counterexample:
  "parseInt ''abc'' = NaN
   \<and> alerts (fst (fetchAlerts_resume (Resolved True (Some (Data [alert_of ''abc'']))) pending))
       = [alert_of ''abc'']
   \<and> alerts pending = []
   \<and> lastCutoffId pending = ''0''
   \<and> lastCutoffId (fst (fetchAlerts_resume (Resolved True (Some (Data [alert_of ''abc'']))) pending))
       = ''NaN''
   \<and> error (fst (fetchAlerts_resume (Resolved True (Some (Data [alert_of ''abc'']))) pending)) = None"
  by code_simp


text \<open>
  C9. A counter tick that fails (rejected fetch, response not ok, body that is not
  JSON or has no rows, no row with rowKey unique_counter) only logs: the state, and with
  it the counter, the published error and the interval, is unchanged. The interval is
  registered with period 2000 and cleared by the cleanup. A later tick that finds the row
  sets the counter to its count.
\<close>

theorem counter_failure_isolated:
  assumes "r = Rejected \<or> r = Resolved False body \<or> r = Resolved True None
           \<or> r = Resolved True (Some Counter_malformed)
           \<or> r = Resolved True (Some (Rows rows))
              \<and> filter (\<lambda>row. rowKey row = ''unique_counter'') rows = []"
    and "filter (\<lambda>row. rowKey row = ''unique_counter'') rows' = m # ms"
  shows "counter_tick_resume r s = (s, [ConsoleError ''Error fetching counter:''])
     \<and> counter (fst (counter_tick_resume r s)) = counter s
     \<and> error (fst (counter_tick_resume r s)) = error s
     \<and> interval (fst (counter_tick_resume r' s)) = interval s
     \<and> interval (counter_effect s) = Some 2000
     \<and> interval (counter_cleanup s) = None
     \<and> counter (fst (counter_tick_resume (Resolved True (Some (Rows rows')))
                       (fst (counter_tick_resume r s)))) = count_of m"
proof -
  from assms(1) have f: "counter_tick_resume r s = (s, [ConsoleError ''Error fetching counter:''])"
    by (auto simp: counter_tick_resume_def)
  have i: "interval (fst (counter_tick_resume r' s)) = interval s"
    by (simp add: counter_tick_resume_def
        split: fetch_result.splits bool.splits option.splits counterdata.splits list.splits)
  from assms(2) have u: "counter (fst (counter_tick_resume (Resolved True (Some (Rows rows'))) s)) = count_of m"
    by (simp add: counter_tick_resume_def)
  from f i u show ?thesis by (simp add: counter_effect_def counter_cleanup_def)
qed

theorem counter_failure_isolated_witness:
  "counter_tick_resume (Resolved True (Some (Rows [\<lparr> rowKey = ''other'', count_of = 9 \<rparr>]))) polling =
     (polling, [ConsoleError ''Error fetching counter:''])
   \<and> counter (fst (counter_tick_resume
        (Resolved True (Some (Rows [\<lparr> rowKey = ''other'', count_of = 9 \<rparr>, \<lparr> rowKey = ''unique_counter'', count_of = 7 \<rparr>])))
        (fst (counter_tick_resume (Resolved True (Some (Rows [\<lparr> rowKey = ''other'', count_of = 9 \<rparr>]))) polling)))) = 7
   \<and> counter polling = 0
   \<and> interval polling = Some 2000"
proof -
  have a: "Resolved True (Some (Rows [\<lparr> rowKey = ''other'', count_of = 9 \<rparr>])) = Rejected
         \<or> Resolved True (Some (Rows [\<lparr> rowKey = ''other'', count_of = 9 \<rparr>])) = Resolved False None
         \<or> Resolved True (Some (Rows [\<lparr> rowKey = ''other'', count_of = 9 \<rparr>])) = Resolved True None
         \<or> Resolved True (Some (Rows [\<lparr> rowKey = ''other'', count_of = 9 \<rparr>])) = Resolved True (Some Counter_malformed)
         \<or> Resolved True (Some (Rows [\<lparr> rowKey = ''other'', count_of = 9 \<rparr>])) =
             Resolved True (Some (Rows [\<lparr> rowKey = ''other'', count_of = 9 \<rparr>]))
           \<and> filter (\<lambda>row. rowKey row = ''unique_counter'') [\<lparr> rowKey = ''other'', count_of = 9 \<rparr>] = []"
    by simp
  have b: "filter (\<lambda>row. rowKey row = ''unique_counter'')
             [\<lparr> rowKey = ''other'', count_of = 9 \<rparr>, \<lparr> rowKey = ''unique_counter'', count_of = 7 \<rparr>]
           = \<lparr> rowKey = ''unique_counter'', count_of = 7 \<rparr> # []"
    by simp
  have c: "counter polling = 0" by code_simp
  have d: "interval polling = Some 2000" by code_simp
  from counter_failure_isolated [OF a b, of polling Rejected] c d
  show ?thesis by auto
qed


text \<open>
  C10. A call of fetchAlerts that passes its guard sets the published error to null
  together with the request, before any response: an empty page then leaves it null and
  a failure publishes the fetch error. A completed page never touches the error, and a
  successful resolveAlert leaves a published error in place.
\<close>

theorem fetch_clears_error:
  assumes "\<not> seen_loading c" and "\<not> no_key (seen_apiKey c)"
  shows "error (fst (fetchAlerts_begin c s)) = None
     \<and> snd (fetchAlerts_begin c s) = [HttpGet (filedata_url (seen_lastCutoffId c)) (key_of (seen_apiKey c))]
     \<and> error (fst (fetchAlerts_resume (Resolved True (Some (Data []))) (fst (fetchAlerts_begin c s)))) = None
     \<and> error (fst (fetchAlerts_resume (Resolved True (Some (Data page))) t)) = error t
     \<and> error (fst (fetchAlerts_resume Rejected (fst (fetchAlerts_begin c s)))) =
         Some ''Failed to fetch alerts. Please try again later.''
     \<and> error (fst (resolveAlert_resume fid (Resolved True b) t)) = error t"
  using assms
  by (simp add: fetchAlerts_begin_def fetchAlerts_resume_def fetched_page_def
      resolveAlert_resume_def split: list.splits)

theorem fetch_clears_error_witness:
  "\<not> seen_loading (render resolve_failed) \<and> \<not> no_key (seen_apiKey (render resolve_failed))
   \<and> \<not> loading resolve_failed \<and> \<not> no_key (apiKey resolve_failed)
   \<and> error resolve_failed = Some ''Failed to resolve alert. Please try again.''
   \<and> error (fst (fetchAlerts_begin (render resolve_failed) resolve_failed)) = None
   \<and> error (fst (resolveAlert_resume ''4'' (Resolved True None) resolve_failed)) =
       Some ''Failed to resolve alert. Please try again.''"
proof -
  have l: "\<not> seen_loading (render resolve_failed)" by code_simp
  have k: "\<not> no_key (seen_apiKey (render resolve_failed))" by code_simp
  have l': "\<not> loading resolve_failed" by code_simp
  have k': "\<not> no_key (apiKey resolve_failed)" by code_simp
  have e: "error resolve_failed = Some ''Failed to resolve alert. Please try again.''"
    by code_simp
  from fetch_clears_error [OF l k, of resolve_failed "[]" resolve_failed "''4''" None] l k l' k' e
  show ?thesis by simp
qed

end
